theory Spec2Isabelle
  imports Main "HOL-Library.Sublist"
begin

section \<open>Strings of the embedded search script\<close>

text \<open>
  The search engine is the JavaScript that \<^verbatim>\<open>generate_html\<close> of \<^verbatim>\<open>app.py\<close> embeds in the
  page. A JavaScript string is a sequence of code units; here a code unit is a \<^typ>\<open>char\<close>,
  read as a code point in U+0000..U+00FF, so that \<open>length\<close> counts what \<^verbatim>\<open>.length\<close> counts
  on such text. The built-in string methods the script calls are written out below on
  this alphabet.
\<close>

definition dquote :: char where
  "dquote = CHR 0x22"

definition backslash :: char where
  "backslash = CHR 0x5C"

text \<open>
  \<^verbatim>\<open>String.prototype.toLowerCase\<close>: in U+0000..U+00FF the letters with a lower-case
  partner are A..Z and U+00C0..U+00DE without the multiplication sign U+00D7; the
  partner is 32 code points up. Every other code unit is left alone.
\<close>

definition toLowerCase_unit :: "char \<Rightarrow> char" where
  "toLowerCase_unit c =
     (let n = (of_char c :: nat)
      in if (65 \<le> n \<and> n \<le> 90) \<or> (192 \<le> n \<and> n \<le> 222 \<and> n \<noteq> 215)
         then char_of (n + 32) else c)"

definition toLowerCase :: "string \<Rightarrow> string" where
  "toLowerCase s = map toLowerCase_unit s"

text \<open>
  \<^verbatim>\<open>String.prototype.trim\<close> removes white space and line terminators from both ends:
  TAB, LF, VT, FF, CR, SPACE and NBSP are the ones in this alphabet.
\<close>

definition is_space :: "char \<Rightarrow> bool" where
  "is_space c = ((of_char c :: nat) \<in> {9, 10, 11, 12, 13, 32, 160})"

definition trim :: "string \<Rightarrow> string" where
  "trim s = rev (dropWhile is_space (rev (dropWhile is_space s)))"

text \<open>
  \<^verbatim>\<open>s.indexOf(v, pos)\<close>: the least index \<open>k \<ge> min pos (length s)\<close> at which \<open>v\<close> starts in
  \<open>s\<close>; \<open>None\<close> stands for \<^verbatim>\<open>-1\<close>. The empty string is found at the start position itself.
\<close>

fun index_from :: "string \<Rightarrow> string \<Rightarrow> nat \<Rightarrow> nat option" where
  "index_from v [] k = (if v = [] then Some k else None)"
| "index_from v (c # cs) k = (if prefix v (c # cs) then Some k else index_from v cs (Suc k))"

definition indexOf :: "string \<Rightarrow> string \<Rightarrow> nat \<Rightarrow> nat option" where
  "indexOf s v pos = (let start = min pos (length s) in index_from v (drop start s) start)"

text \<open>\<^verbatim>\<open>s.includes(v)\<close> is \<^verbatim>\<open>s.indexOf(v) !== -1\<close>.\<close>

definition js_includes :: "string \<Rightarrow> string \<Rightarrow> bool" where
  "js_includes s v = (indexOf s v 0 \<noteq> None)"

text \<open>\<^verbatim>\<open>s.split(sep)\<close> for a separator of one code unit; the result is never empty.\<close>

fun split :: "char \<Rightarrow> string \<Rightarrow> string list" where
  "split sep [] = [[]]"
| "split sep (c # cs) =
     (if c = sep then [] # split sep cs
      else (let r = split sep cs in (c # hd r) # tl r))"

text \<open>
  \<^verbatim>\<open>s.replace(pat, '')\<close> with a string pattern: the first occurrence of \<open>pat\<close> is removed,
  and \<open>s\<close> is returned as it is when there is none.
\<close>

fun replace_first_empty :: "string \<Rightarrow> string \<Rightarrow> string" where
  "replace_first_empty pat [] = []"
| "replace_first_empty pat (c # cs) =
     (if prefix pat (c # cs) then drop (length pat) (c # cs)
      else c # replace_first_empty pat cs)"

section \<open>Data model\<close>

text \<open>
  The records \<^verbatim>\<open>parse_transcript\<close> builds and \<^verbatim>\<open>json.dumps\<close> embeds as \<^verbatim>\<open>TRANSCRIPTS\<close>.
  The script reads \<^verbatim>\<open>utterance.text\<close> without a check, so the field is an option here:
  \<open>None\<close> is a record whose text is absent or null.
\<close>

record utterance =
  speaker :: string
  speaker_type :: string
  start :: string
  end_time :: string
  utterance_text :: "string option"

record transcript =
  transcript_id :: string
  transcript_name :: string
  filename :: string
  utterances :: "utterance list"
  full_text :: string
  utterance_count :: nat

datatype term_type = Phrase | Keyword

record search_term =
  term_type :: term_type
  term_value :: string

datatype js_error = TypeError

section \<open>Query parser\<close>

text \<open>
  One \<^verbatim>\<open>quoteRegex.exec\<close> step of \<^verbatim>\<open>/"([^"]+)"/g\<close> on the part of the query from
  \<^verbatim>\<open>lastIndex\<close> on: a quote, the longest run of other code units, which must not be empty,
  and a quote. The result is the captured group and the part of the query after the
  match; \<open>None\<close> is \<^verbatim>\<open>null\<close>.
\<close>

fun quoteRegex_exec :: "string \<Rightarrow> (string \<times> string) option" where
  "quoteRegex_exec [] = None"
| "quoteRegex_exec (c # cs) =
     (if c = dquote
      then (let body = takeWhile (\<lambda>x. x \<noteq> dquote) cs;
                after = dropWhile (\<lambda>x. x \<noteq> dquote) cs
            in if body \<noteq> [] \<and> after \<noteq> [] then Some (body, tl after)
               else quoteRegex_exec cs)
      else quoteRegex_exec cs)"

text \<open>
  The \<^verbatim>\<open>while\<close> loop of \<^verbatim>\<open>parseSearchQuery\<close>: every match pushes a phrase term and removes
  the first occurrence of the matched text, quotes included, from \<^verbatim>\<open>remaining\<close>.
\<close>

function phrase_loop ::
  "string \<Rightarrow> search_term list \<Rightarrow> string \<Rightarrow> search_term list \<times> string" where
  "phrase_loop rest terms remaining =
     (case quoteRegex_exec rest of
        None \<Rightarrow> (terms, remaining)
      | Some (m1, rest') \<Rightarrow>
          phrase_loop rest'
            (terms @ [\<lparr>term_type = Phrase, term_value = m1\<rparr>])
            (replace_first_empty (dquote # m1 @ [dquote]) remaining))"
  by pat_completeness auto
termination
proof (relation "measure (\<lambda>(rest, terms, remaining). length rest)")
  show "wf (measure (\<lambda>(rest, terms, remaining). length rest))"
    by simp
next
  fix rest :: string and terms :: "search_term list" and remaining :: string
    and x2 :: "string \<times> string" and m1 rest'
  assume ex: "quoteRegex_exec rest = Some x2" and x2: "(m1, rest') = x2"
  have shorter: "quoteRegex_exec s = Some (a, b) \<Longrightarrow> length b < length s" for s a b
  proof (induction s)
    case Nil
    then show ?case by simp
  next
    case (Cons c cs)
    have "length (tl (dropWhile (\<lambda>x. x \<noteq> dquote) cs)) \<le> length cs"
      using length_dropWhile_le [of "\<lambda>x. x \<noteq> dquote" cs] by simp
    with Cons show ?case
      by (auto simp: Let_def split: if_splits)
  qed
  from ex x2 have "length rest' < length rest"
    using shorter [of rest m1 rest'] by simp
  then show "((rest', terms @ [\<lparr>term_type = Phrase, term_value = m1\<rparr>],
               replace_first_empty (dquote # m1 @ [dquote]) remaining),
              rest, terms, remaining)
             \<in> measure (\<lambda>(rest, terms, remaining). length rest)"
    by simp
qed

declare phrase_loop.simps [simp del]

definition parseSearchQuery :: "string \<Rightarrow> search_term list" where
  "parseSearchQuery query =
     (let (terms, remaining) = phrase_loop query [] query;
          parts = filter (\<lambda>s. length s > 0) (map trim (split (CHR '';'') remaining))
      in terms @ map (\<lambda>part. \<lparr>term_type = Keyword, term_value = part\<rparr>)
                     (filter (\<lambda>part. length part > 0) parts))"

section \<open>Term matcher\<close>

text \<open>
  \<^verbatim>\<open>const searchText = isCaseSensitive ? text : text.toLowerCase()\<close>: calling a method on
  an absent text raises; passing it on does not.
\<close>

definition searchText_of :: "string option \<Rightarrow> bool \<Rightarrow> js_error + string option" where
  "searchText_of text isCaseSensitive =
     (if isCaseSensitive then Inr text
      else (case text of None \<Rightarrow> Inl TypeError | Some t \<Rightarrow> Inr (Some (toLowerCase t))))"

definition searchValue_of :: "search_term \<Rightarrow> bool \<Rightarrow> string" where
  "searchValue_of t isCaseSensitive =
     (if isCaseSensitive then term_value t else toLowerCase (term_value t))"

fun matches_loop :: "string option \<Rightarrow> search_term list \<Rightarrow> bool \<Rightarrow> js_error + bool" where
  "matches_loop searchText [] isCaseSensitive = Inr True"
| "matches_loop searchText (t # ts) isCaseSensitive =
     (case searchText of
        None \<Rightarrow> Inl TypeError
      | Some s \<Rightarrow>
          if \<not> js_includes s (searchValue_of t isCaseSensitive) then Inr False
          else matches_loop searchText ts isCaseSensitive)"

definition matchesAllTerms :: "string option \<Rightarrow> search_term list \<Rightarrow> bool \<Rightarrow> js_error + bool" where
  "matchesAllTerms text terms isCaseSensitive =
     (case searchText_of text isCaseSensitive of
        Inl e \<Rightarrow> Inl e
      | Inr searchText \<Rightarrow> matches_loop searchText terms isCaseSensitive)"

text \<open>
  The inner \<^verbatim>\<open>while\<close> loop of \<^verbatim>\<open>countMatches\<close>. It ends when \<^verbatim>\<open>indexOf\<close> answers \<^verbatim>\<open>-1\<close>; a
  run that never ends is the value \<open>None\<close>.
\<close>

partial_function (option) count_from :: "string \<Rightarrow> string \<Rightarrow> nat \<Rightarrow> nat \<Rightarrow> nat option" where
  "count_from searchText searchValue pos count =
     (case indexOf searchText searchValue pos of
        None \<Rightarrow> Some count
      | Some p \<Rightarrow> count_from searchText searchValue (p + length searchValue) (count + 1))"

declare count_from.simps [code]

fun count_loop ::
  "string option \<Rightarrow> search_term list \<Rightarrow> bool \<Rightarrow> nat \<Rightarrow> (js_error + nat) option" where
  "count_loop searchText [] isCaseSensitive count = Some (Inr count)"
| "count_loop searchText (t # ts) isCaseSensitive count =
     (case searchText of
        None \<Rightarrow> Some (Inl TypeError)
      | Some s \<Rightarrow>
          (case count_from s (searchValue_of t isCaseSensitive) 0 count of
             None \<Rightarrow> None
           | Some count' \<Rightarrow> count_loop searchText ts isCaseSensitive count'))"

definition countMatches ::
  "string option \<Rightarrow> search_term list \<Rightarrow> bool \<Rightarrow> (js_error + nat) option" where
  "countMatches text terms isCaseSensitive =
     (case searchText_of text isCaseSensitive of
        Inl e \<Rightarrow> Some (Inl e)
      | Inr searchText \<Rightarrow> count_loop searchText terms isCaseSensitive 0)"

section \<open>Highlighter\<close>

text \<open>
  A \<^verbatim>\<open>RegExp\<close> object, always global: its source text and whether it has the \<^verbatim>\<open>i\<close> flag.
\<close>

record regexp =
  source :: string
  ignoreCase :: bool

text \<open>
  \<^verbatim>\<open>value.replace(/[.*+?^${}()|[\]\\]/g, '\\$&')\<close>: a backslash goes in front of every
  code unit of the class.
\<close>

definition escape_unit :: "char \<Rightarrow> string" where
  "escape_unit c =
     (if c \<in> set ''.*+?^${}()|[]'' \<or> c = backslash then [backslash, c] else [c])"

definition escapeRegExp :: "string \<Rightarrow> string" where
  "escapeRegExp s = concat (map escape_unit s)"

text \<open>\<^verbatim>\<open>Array.prototype.join\<close>.\<close>

fun join :: "string \<Rightarrow> string list \<Rightarrow> string" where
  "join sep [] = []"
| "join sep [x] = x"
| "join sep (x # y # ys) = x @ sep @ join sep (y # ys)"

definition createHighlightRegex :: "search_term list \<Rightarrow> bool \<Rightarrow> regexp" where
  "createHighlightRegex terms isCaseSensitive =
     (let patterns = map (\<lambda>t. escapeRegExp (term_value t)) terms
      in \<lparr>source = ''('' @ join ''|'' patterns @ '')'', ignoreCase = \<not> isCaseSensitive\<rparr>)"

text \<open>
  What such a pattern means. Every source the script builds is one group around
  alternatives of escaped literals, so the meaning of a source is the list of its
  alternatives: the text between the outer parentheses, cut at each bar that is not
  escaped, with each escaped code unit standing for itself. Nothing else of the pattern
  language is interpreted.
\<close>

fun alternatives_of :: "string \<Rightarrow> string list" where
  "alternatives_of [] = [[]]"
| "alternatives_of [c] = (if c = CHR ''|'' then [[], []] else [[c]])"
| "alternatives_of (c # d # ds) =
     (if c = backslash then (let r = alternatives_of ds in (d # hd r) # tl r)
      else if c = CHR ''|'' then [] # alternatives_of (d # ds)
      else (let r = alternatives_of (d # ds) in (c # hd r) # tl r))"

definition regexp_alternatives :: "regexp \<Rightarrow> string list" where
  "regexp_alternatives re = alternatives_of (butlast (tl (source re)))"

text \<open>
  With the \<^verbatim>\<open>i\<close> flag two code units match when their canonical forms are equal; the
  canonical form is the upper-case partner when that is one code unit. In
  U+0000..U+00FF that moves a..z and U+00E0..U+00FE without the division sign U+00F7
  down by 32; the partners of U+00B5 and U+00FF lie outside this alphabet and no other
  code unit of it shares them, so both stay.
\<close>

definition canonicalize_unit :: "char \<Rightarrow> char" where
  "canonicalize_unit c =
     (let n = (of_char c :: nat)
      in if (97 \<le> n \<and> n \<le> 122) \<or> (224 \<le> n \<and> n \<le> 254 \<and> n \<noteq> 247)
         then char_of (n - 32) else c)"

definition canonical :: "bool \<Rightarrow> string \<Rightarrow> string" where
  "canonical ic s = (if ic then map canonicalize_unit s else s)"

text \<open>
  A match attempt at the head of \<open>s\<close>: the first alternative, in order, that \<open>s\<close>
  starts with. The result is the matched text, which is also group 1.
\<close>

fun first_alternative :: "bool \<Rightarrow> string list \<Rightarrow> string \<Rightarrow> string option" where
  "first_alternative ic [] s = None"
| "first_alternative ic (a # as) s =
     (if prefix (canonical ic a) (canonical ic s) then Some (take (length a) s)
      else first_alternative ic as s)"

definition highlight_mark :: "string \<Rightarrow> string" where
  \<open>highlight_mark m = ''<mark class="highlight">'' @ m @ ''</mark>''\<close>

text \<open>
  \<^verbatim>\<open>s.replace(re, '<mark class="highlight">$1</mark>')\<close> for a global \<^verbatim>\<open>re\<close>: matches are
  taken left to right, each is replaced by the marked group, the scan goes on behind the
  match, and behind an empty match it first steps over one code unit, which is copied.
\<close>

function replace_scan :: "bool \<Rightarrow> string list \<Rightarrow> string \<Rightarrow> string" where
  "replace_scan ic alts [] =
     (case first_alternative ic alts [] of None \<Rightarrow> [] | Some m \<Rightarrow> highlight_mark m)"
| "replace_scan ic alts (c # cs) =
     (case first_alternative ic alts (c # cs) of
        None \<Rightarrow> c # replace_scan ic alts cs
      | Some m \<Rightarrow>
          if m = [] then highlight_mark [] @ c # replace_scan ic alts cs
          else highlight_mark m @ replace_scan ic alts (drop (length m) (c # cs)))"
  by pat_completeness auto
termination
  by (relation "measure (\<lambda>(ic, alts, s). length s)") auto

definition replace_highlight :: "regexp \<Rightarrow> string \<Rightarrow> string" where
  "replace_highlight re s = replace_scan (ignoreCase re) (regexp_alternatives re) s"

text \<open>
  \<^verbatim>\<open>highlightTextInModal\<close>; \<open>None\<close> for \<^verbatim>\<open>searchTerms\<close> is \<^verbatim>\<open>null\<close> or \<^verbatim>\<open>undefined\<close>, and the
  third argument is the global \<^verbatim>\<open>caseSensitive\<close>.
\<close>

fun modal_loop :: "string option \<Rightarrow> string list \<Rightarrow> bool \<Rightarrow> js_error + string option" where
  "modal_loop result [] caseSensitive = Inr result"
| "modal_loop result (t # ts) caseSensitive =
     (if t = [] then modal_loop result ts caseSensitive
      else (case result of
              None \<Rightarrow> Inl TypeError
            | Some r \<Rightarrow>
                modal_loop
                  (Some (replace_highlight
                     \<lparr>source = ''('' @ escapeRegExp t @ '')'', ignoreCase = \<not> caseSensitive\<rparr> r))
                  ts caseSensitive))"

definition highlightTextInModal ::
  "string option \<Rightarrow> string list option \<Rightarrow> bool \<Rightarrow> js_error + string option" where
  "highlightTextInModal text searchTerms caseSensitive =
     (case searchTerms of
        None \<Rightarrow> Inr text
      | Some ts \<Rightarrow> if length ts = 0 then Inr text else modal_loop text ts caseSensitive)"

section \<open>Transcript scanner\<close>

text \<open>
  A matching utterance is the utterance with two more fields,
  \<^verbatim>\<open>{...utterance, index: i, matchCount: matchCount}\<close>; an entry of \<^verbatim>\<open>results\<close> is
  \<^verbatim>\<open>{transcript, matchingUtterances, totalMatches}\<close>.
\<close>

record matched_utterance = utterance +
  index :: int
  matchCount :: nat

record search_result =
  result_transcript :: transcript
  matchingUtterances :: "matched_utterance list"
  totalMatches :: nat

text \<open>
  The inner \<^verbatim>\<open>for\<close> loop of \<^verbatim>\<open>performSearch\<close>, from index \<open>i\<close> on, with the two variables it
  updates. An exception leaves the loop with \<open>Inl\<close>; \<open>None\<close> is a call that never returns.
\<close>

fun utterance_loop ::
  "search_term list \<Rightarrow> string \<Rightarrow> bool \<Rightarrow> utterance list \<Rightarrow> nat \<Rightarrow>
   matched_utterance list \<Rightarrow> nat \<Rightarrow> (js_error + matched_utterance list \<times> nat) option" where
  "utterance_loop terms speakerFilter caseSensitive [] i matching transcriptMatches =
     Some (Inr (matching, transcriptMatches))"
| "utterance_loop terms speakerFilter caseSensitive (u # us) i matching transcriptMatches =
     (if speakerFilter \<noteq> ''all'' \<and> speaker_type u \<noteq> speakerFilter
      then utterance_loop terms speakerFilter caseSensitive us (Suc i) matching transcriptMatches
      else (case matchesAllTerms (utterance_text u) terms caseSensitive of
              Inl e \<Rightarrow> Some (Inl e)
            | Inr False \<Rightarrow>
                utterance_loop terms speakerFilter caseSensitive us (Suc i)
                  matching transcriptMatches
            | Inr True \<Rightarrow>
                (case countMatches (utterance_text u) terms caseSensitive of
                   None \<Rightarrow> None
                 | Some (Inl e) \<Rightarrow> Some (Inl e)
                 | Some (Inr n) \<Rightarrow>
                     utterance_loop terms speakerFilter caseSensitive us (Suc i)
                       (matching @ [utterance.extend u \<lparr>index = int i, matchCount = n\<rparr>])
                       (transcriptMatches + n))))"

text \<open>The outer loop over \<^verbatim>\<open>TRANSCRIPTS\<close>, with \<^verbatim>\<open>results\<close> and the global \<^verbatim>\<open>totalMatches\<close>, here \<open>grandTotal\<close>.\<close>

fun transcript_loop ::
  "search_term list \<Rightarrow> string \<Rightarrow> bool \<Rightarrow> transcript list \<Rightarrow>
   search_result list \<Rightarrow> nat \<Rightarrow> (js_error + search_result list \<times> nat) option" where
  "transcript_loop terms speakerFilter caseSensitive [] results grandTotal =
     Some (Inr (results, grandTotal))"
| "transcript_loop terms speakerFilter caseSensitive (t # ts) results grandTotal =
     (case utterance_loop terms speakerFilter caseSensitive (utterances t) 0 [] 0 of
        None \<Rightarrow> None
      | Some (Inl e) \<Rightarrow> Some (Inl e)
      | Some (Inr (matching, transcriptMatches)) \<Rightarrow>
          if length matching > 0
          then transcript_loop terms speakerFilter caseSensitive ts
                 (results @ [\<lparr>result_transcript = t, matchingUtterances = matching,
                               totalMatches = transcriptMatches\<rparr>])
                 (grandTotal + transcriptMatches)
          else transcript_loop terms speakerFilter caseSensitive ts results grandTotal)"

section \<open>Result renderer\<close>

text \<open>
  The markup is kept as the sequence of blocks the template literals append to \<^verbatim>\<open>html\<close>,
  each with the values interpolated into it: the context indicator, and the utterance
  block with its badge class, badge label, the two times and the highlighted text.
\<close>

datatype utterance_html =
  ContextIndicator
  | UtteranceBlock string string string string string

datatype card_html = TranscriptCard string string nat "utterance_html list"

datatype results_html = NoMatchesFound | Cards "card_html list"

definition badge_label :: "string \<Rightarrow> string" where
  "badge_label st = (if st = ''agent'' then ''Agent'' else ''Customer'')"

fun render_loop ::
  "regexp \<Rightarrow> matched_utterance list \<Rightarrow> int \<Rightarrow> utterance_html list \<Rightarrow>
   js_error + utterance_html list" where
  "render_loop highlightRegex [] prevIndex html = Inr html"
| "render_loop highlightRegex (u # us) prevIndex html =
     (let html1 = (if index u > prevIndex + 1 \<and> prevIndex \<ge> 0
                   then html @ [ContextIndicator] else html)
      in case utterance_text u of
           None \<Rightarrow> Inl TypeError
         | Some t \<Rightarrow>
             render_loop highlightRegex us (index u)
               (html1 @ [UtteranceBlock (speaker_type u) (badge_label (speaker_type u))
                           (start u) (end_time u) (replace_highlight highlightRegex t)]))"

definition renderUtterances ::
  "transcript \<Rightarrow> matched_utterance list \<Rightarrow> regexp \<Rightarrow> js_error + utterance_html list" where
  "renderUtterances tr matching highlightRegex = render_loop highlightRegex matching (- 2) []"

fun cards_loop ::
  "regexp \<Rightarrow> search_result list \<Rightarrow> card_html list \<Rightarrow> js_error + card_html list" where
  "cards_loop highlightRegex [] html = Inr html"
| "cards_loop highlightRegex (r # rs) html =
     (case renderUtterances (result_transcript r) (matchingUtterances r) highlightRegex of
        Inl e \<Rightarrow> Inl e
      | Inr body \<Rightarrow>
          cards_loop highlightRegex rs
            (html @ [TranscriptCard (transcript_id (result_transcript r))
                       (transcript_name (result_transcript r)) (totalMatches r) body]))"

definition renderResults ::
  "search_result list \<Rightarrow> search_term list \<Rightarrow> bool \<Rightarrow> js_error + results_html" where
  "renderResults results terms caseSensitive =
     (if length results = 0 then Inr NoMatchesFound
      else (case cards_loop (createHighlightRegex terms caseSensitive) results [] of
              Inl e \<Rightarrow> Inl e
            | Inr cards \<Rightarrow> Inr (Cards cards)))"

section \<open>The search\<close>

text \<open>
  What a call of \<^verbatim>\<open>performSearch\<close> leaves on the page: the empty state of
  \<^verbatim>\<open>showEmptyState\<close>, or the result list with the two counters and the rendered cards.
  The arguments are the globals the function reads: \<^verbatim>\<open>TRANSCRIPTS\<close>, the value of the
  search box, \<^verbatim>\<open>speakerFilter\<close> and \<^verbatim>\<open>caseSensitive\<close>. The elapsed time it also shows is
  left out.
\<close>

datatype display =
  EmptyState
  | SearchDone "search_result list" nat nat results_html

definition performSearch ::
  "transcript list \<Rightarrow> string \<Rightarrow> string \<Rightarrow> bool \<Rightarrow> (js_error + display) option" where
  "performSearch TRANSCRIPTS input speakerFilter caseSensitive =
     (let query = trim input
      in if query = [] then Some (Inr EmptyState)
         else (let terms = parseSearchQuery query
               in if length terms = 0 then Some (Inr EmptyState)
                  else (case transcript_loop terms speakerFilter caseSensitive TRANSCRIPTS [] 0 of
                          None \<Rightarrow> None
                        | Some (Inl e) \<Rightarrow> Some (Inl e)
                        | Some (Inr (results, grandTotal)) \<Rightarrow>
                            (case renderResults results terms caseSensitive of
                               Inl e \<Rightarrow> Some (Inl e)
                             | Inr html \<Rightarrow>
                                 Some (Inr (SearchDone results (length results) grandTotal html))))))"

section \<open>What the specification says, in its own words\<close>

text \<open>
  The number of non-overlapping occurrences of \<open>v\<close> in \<open>s\<close>, read left to right: an
  occurrence at the head counts and the reading goes on right behind its end; otherwise
  it goes on one code unit further. Only asked for a non-empty \<open>v\<close>.
\<close>

function nonoverlapping_occurrences :: "string \<Rightarrow> string \<Rightarrow> nat" where
  "nonoverlapping_occurrences v s =
     (if v = [] \<or> s = [] then 0
      else if prefix v s then 1 + nonoverlapping_occurrences v (drop (length v) s)
      else nonoverlapping_occurrences v (tl s))"
  by pat_completeness auto
termination
  by (relation "measure (\<lambda>(v, s). length s)") auto

declare nonoverlapping_occurrences.simps [simp del]

text \<open>Case folding of both sides unless the search is case sensitive.\<close>

definition fold_case :: "bool \<Rightarrow> string \<Rightarrow> string" where
  "fold_case caseSensitive s = (if caseSensitive then s else toLowerCase s)"

text \<open>AND semantics: the text contains the value of every term as a substring.\<close>

definition contains_all_terms :: "bool \<Rightarrow> search_term list \<Rightarrow> string \<Rightarrow> bool" where
  "contains_all_terms caseSensitive terms text =
     (\<forall>t \<in> set terms. sublist (fold_case caseSensitive (term_value t))
                               (fold_case caseSensitive text))"

text \<open>The sum, over all terms, of the occurrences of the term's value.\<close>

definition occurrence_total :: "bool \<Rightarrow> search_term list \<Rightarrow> string \<Rightarrow> nat" where
  "occurrence_total caseSensitive terms text =
     sum_list (map (\<lambda>t. nonoverlapping_occurrences (fold_case caseSensitive (term_value t))
                                                    (fold_case caseSensitive text)) terms)"

text \<open>An utterance passes the speaker filter; an utterance qualifies for a query.\<close>

definition passes_filter :: "string \<Rightarrow> utterance \<Rightarrow> bool" where
  "passes_filter speakerFilter u = (speakerFilter = ''all'' \<or> speaker_type u = speakerFilter)"

definition qualifies :: "bool \<Rightarrow> search_term list \<Rightarrow> string \<Rightarrow> utterance \<Rightarrow> bool" where
  "qualifies caseSensitive terms speakerFilter u =
     (passes_filter speakerFilter u \<and>
      (case utterance_text u of
         None \<Rightarrow> False
       | Some text \<Rightarrow> contains_all_terms caseSensitive terms text))"

text \<open>
  The matching utterances of a transcript in original order, each with its position and
  its match count, and the result entries of a corpus in original order, a transcript
  without a qualifying utterance left out.
\<close>

fun matched_from ::
  "bool \<Rightarrow> search_term list \<Rightarrow> string \<Rightarrow> utterance list \<Rightarrow> nat \<Rightarrow> matched_utterance list" where
  "matched_from caseSensitive terms speakerFilter [] i = []"
| "matched_from caseSensitive terms speakerFilter (u # us) i =
     (if qualifies caseSensitive terms speakerFilter u
      then [utterance.extend u
              \<lparr>index = int i,
               matchCount = occurrence_total caseSensitive terms (the (utterance_text u))\<rparr>]
      else [])
     @ matched_from caseSensitive terms speakerFilter us (Suc i)"

definition result_of :: "bool \<Rightarrow> search_term list \<Rightarrow> string \<Rightarrow> transcript \<Rightarrow> search_result" where
  "result_of caseSensitive terms speakerFilter t =
     (let matching = matched_from caseSensitive terms speakerFilter (utterances t) 0
      in \<lparr>result_transcript = t, matchingUtterances = matching,
          totalMatches = sum_list (map matchCount matching)\<rparr>)"

definition results_of ::
  "bool \<Rightarrow> search_term list \<Rightarrow> string \<Rightarrow> transcript list \<Rightarrow> search_result list" where
  "results_of caseSensitive terms speakerFilter corpus =
     filter (\<lambda>r. matchingUtterances r \<noteq> [])
       (map (result_of caseSensitive terms speakerFilter) corpus)"

text \<open>Every utterance of the corpus has a text, as the data model has it.\<close>

definition texts_present :: "transcript list \<Rightarrow> bool" where
  "texts_present corpus = (\<forall>t \<in> set corpus. \<forall>u \<in> set (utterances t). utterance_text u \<noteq> None)"

text \<open>
  The blocks the renderer is to emit for a list of matches: a gap marker in front of a
  match that has a predecessor \<open>prev\<close> whose index is not one less, then the match.
\<close>

definition utterance_block :: "regexp \<Rightarrow> matched_utterance \<Rightarrow> utterance_html" where
  "utterance_block re u =
     UtteranceBlock (speaker_type u) (badge_label (speaker_type u)) (start u) (end_time u)
       (replace_highlight re (the (utterance_text u)))"

fun blocks_with_gaps ::
  "regexp \<Rightarrow> int option \<Rightarrow> matched_utterance list \<Rightarrow> utterance_html list" where
  "blocks_with_gaps re prev [] = []"
| "blocks_with_gaps re prev (u # us) =
     (case prev of
        None \<Rightarrow> []
      | Some p \<Rightarrow> if index u \<noteq> p + 1 then [ContextIndicator] else [])
     @ utterance_block re u # blocks_with_gaps re (Some (index u)) us"

text \<open>
  Two utterances that the filter \<open>f\<close> cannot tell apart: they are the same, or both have a
  speaker type other than \<open>f\<close>. Two transcripts are variants when they agree on identifier
  and name and their utterances are such pairs, position by position.
\<close>

definition hidden_pair :: "string \<Rightarrow> utterance \<Rightarrow> utterance \<Rightarrow> bool" where
  "hidden_pair f u u' = (u = u' \<or> (speaker_type u \<noteq> f \<and> speaker_type u' \<noteq> f))"

definition hidden_variant :: "string \<Rightarrow> transcript \<Rightarrow> transcript \<Rightarrow> bool" where
  "hidden_variant f t t' =
     (transcript_id t = transcript_id t' \<and> transcript_name t = transcript_name t' \<and>
      list_all2 (hidden_pair f) (utterances t) (utterances t'))"

text \<open>
  What a search outcome says about matches: per result the matching utterances and the
  transcript total, then the two counters and the rendered cards.
\<close>

fun match_data ::
  "display \<Rightarrow> ((matched_utterance list \<times> nat) list \<times> nat \<times> nat \<times> results_html) option" where
  "match_data EmptyState = None"
| "match_data (SearchDone results k g html) =
     Some (map (\<lambda>r. (matchingUtterances r, totalMatches r)) results, k, g, html)"

definition same_matches :: "search_result \<Rightarrow> search_result \<Rightarrow> bool" where
  "same_matches r r' =
     (matchingUtterances r = matchingUtterances r' \<and> totalMatches r = totalMatches r' \<and>
      transcript_id (result_transcript r) = transcript_id (result_transcript r') \<and>
      transcript_name (result_transcript r) = transcript_name (result_transcript r'))"

text \<open>
  Under a speaker filter every matching utterance has the filter's speaker type, and a
  transcript total is the sum of the match counts of its matching utterances.
\<close>

definition filtered_totals :: "string \<Rightarrow> search_result list \<Rightarrow> bool" where
  "filtered_totals f rs =
     (\<forall>r \<in> set rs.
        (f \<noteq> ''all'' \<longrightarrow> (\<forall>m \<in> set (matchingUtterances r). speaker_type m = f)) \<and>
        totalMatches r = sum_list (map matchCount (matchingUtterances r)))"

section \<open>Example data\<close>

text \<open>
  Two transcripts as the loader builds them, and a copy of the first whose customer
  utterance has lost its text.
\<close>

definition agent_hello :: utterance where
  "agent_hello = \<lparr>speaker = ''Agent'', speaker_type = ''agent'', start = ''0:00'',
                   end_time = ''0:02'', utterance_text = Some ''Hello there''\<rparr>"

definition customer_help :: utterance where
  "customer_help = \<lparr>speaker = ''Customer'', speaker_type = ''customer'', start = ''0:03'',
                     end_time = ''0:05'', utterance_text = Some ''I need help''\<rparr>"

definition agent_bye :: utterance where
  "agent_bye = \<lparr>speaker = ''Speaker 2'', speaker_type = ''agent'', start = ''0:00'',
                 end_time = ''0:01'', utterance_text = Some ''Goodbye''\<rparr>"

definition customer_no_text :: utterance where
  "customer_no_text = \<lparr>speaker = ''Customer'', speaker_type = ''customer'', start = ''0:03'',
                        end_time = ''0:05'', utterance_text = None\<rparr>"

definition call_one :: transcript where
  "call_one = \<lparr>transcript_id = ''call-1'', transcript_name = ''call-1'',
                filename = ''call-1.txt'', utterances = [agent_hello, customer_help],
                full_text = ''Agent: Hello there'' @ [CHR 0x0A] @ ''Customer: I need help'',
                utterance_count = 2\<rparr>"

definition call_two :: transcript where
  "call_two = \<lparr>transcript_id = ''call-2'', transcript_name = ''call-2'',
                filename = ''call-2.txt'', utterances = [agent_bye],
                full_text = ''Speaker 2: Goodbye'', utterance_count = 1\<rparr>"

definition call_one_damaged :: transcript where
  "call_one_damaged = call_one\<lparr>utterances := [agent_hello, customer_no_text]\<rparr>"

section \<open>Substring search\<close>

lemma index_from_None_iff: "index_from v s k = None \<longleftrightarrow> \<not> sublist v s"
proof (induction s arbitrary: k)
  case Nil
  then show ?case by auto
next
  case (Cons c cs)
  then show ?case by (auto simp: sublist_Cons_right)
qed

lemma index_from_Nil: "index_from [] s k = Some k"
  by (cases s) simp_all

lemma js_includes_iff: "js_includes s v \<longleftrightarrow> sublist v s"
  by (simp add: js_includes_def indexOf_def index_from_None_iff)

lemma index_from_None_occ:
  "v \<noteq> [] \<Longrightarrow> index_from v s k = None \<Longrightarrow> nonoverlapping_occurrences v s = 0"
proof (induction s arbitrary: k)
  case Nil
  then show ?case by (simp add: nonoverlapping_occurrences.simps)
next
  case (Cons c cs)
  from Cons.prems have np: "\<not> prefix v (c # cs)" and rest: "index_from v cs (Suc k) = None"
    by (auto split: if_splits)
  from Cons.IH [OF Cons.prems(1) rest] np show ?case
    by (subst nonoverlapping_occurrences.simps) simp
qed

lemma index_from_Some_occ:
  "v \<noteq> [] \<Longrightarrow> index_from v s k = Some p \<Longrightarrow>
     k \<le> p \<and> p - k + length v \<le> length s \<and>
     nonoverlapping_occurrences v s =
       Suc (nonoverlapping_occurrences v (drop (p - k + length v) s))"
proof (induction s arbitrary: k)
  case Nil
  then show ?case by simp
next
  case (Cons c cs)
  show ?case
  proof (cases "prefix v (c # cs)")
    case True
    with Cons.prems have "p = k" by simp
    moreover from True have "length v \<le> length (c # cs)" by (rule prefix_length_le)
    ultimately show ?thesis using True Cons.prems(1)
      by (subst nonoverlapping_occurrences.simps) simp
  next
    case False
    with Cons.prems have rest: "index_from v cs (Suc k) = Some p" by simp
    from Cons.IH [OF Cons.prems(1) rest]
    have ih: "Suc k \<le> p" "p - Suc k + length v \<le> length cs"
      "nonoverlapping_occurrences v cs =
         Suc (nonoverlapping_occurrences v (drop (p - Suc k + length v) cs))"
      by blast+
    from ih(1) have eq: "p - k + length v = Suc (p - Suc k + length v)" by simp
    have "nonoverlapping_occurrences v (c # cs) = nonoverlapping_occurrences v cs"
      using False Cons.prems(1) by (subst nonoverlapping_occurrences.simps) simp
    with ih eq show ?thesis by simp
  qed
qed

section \<open>The counting loop\<close>

lemma count_from_nonempty:
  assumes "v \<noteq> []"
  shows "count_from s v pos count = Some (count + nonoverlapping_occurrences v (drop pos s))"
proof (induction "length s - pos" arbitrary: pos count rule: less_induct)
  case less
  let ?start = "min pos (length s)"
  have dr: "drop ?start s = drop pos s" by (cases "pos \<le> length s") (simp_all add: min_def)
  show ?case
  proof (cases "index_from v (drop pos s) ?start")
    case None
    then have "nonoverlapping_occurrences v (drop pos s) = 0"
      using assms index_from_None_occ by blast
    with None show ?thesis
      by (subst count_from.simps) (simp add: indexOf_def dr)
  next
    case (Some p)
    from index_from_Some_occ [OF assms Some]
    have b: "?start \<le> p" "p - ?start + length v \<le> length (drop pos s)"
      and occ: "nonoverlapping_occurrences v (drop pos s) =
         Suc (nonoverlapping_occurrences v (drop (p - ?start + length v) (drop pos s)))"
      by blast+
    from b assms have inb: "pos < length s" by (cases v) auto
    then have st: "?start = pos" by simp
    from b st have pp: "pos \<le> p" by simp
    have lt: "length s - (p + length v) < length s - pos"
      using inb pp assms by (cases v) auto
    have dd: "drop (p - ?start + length v) (drop pos s) = drop (p + length v) s"
      using pp st by (simp add: add.commute)
    have "count_from s v pos count = count_from s v (p + length v) (count + 1)"
      using Some by (subst count_from.simps) (simp add: indexOf_def dr)
    also have "\<dots> = Some (count + 1 + nonoverlapping_occurrences v (drop (p + length v) s))"
      using less [OF lt] .
    finally show ?thesis using occ dd by simp
  qed
qed

lemma count_from_Some_nonempty: "count_from s v pos count = Some y \<Longrightarrow> v \<noteq> []"
proof (induction rule: count_from.raw_induct [rotated 1, consumes 1])
  case (1 f s v pos count y)
  show ?case
  proof
    assume "v = []"
    with 1(2) obtain p where "f s v p (count + 1) = Some y"
      by (auto simp: indexOf_def index_from_Nil)
    with 1(1) have "v \<noteq> []" by blast
    with \<open>v = []\<close> show False by simp
  qed
qed

lemma count_from_empty: "count_from s [] pos count = None"
  using count_from_Some_nonempty [of s "[]" pos count]
  by (cases "count_from s [] pos count") auto

section \<open>Case folding\<close>

lemma toLowerCase_Nil_iff: "toLowerCase s = [] \<longleftrightarrow> s = []"
  by (simp add: toLowerCase_def)

lemma searchValue_of_fold: "searchValue_of t cs = fold_case cs (term_value t)"
  by (simp add: searchValue_of_def fold_case_def)

lemma fold_case_Nil_iff: "fold_case cs s = [] \<longleftrightarrow> s = []"
  by (simp add: fold_case_def toLowerCase_Nil_iff)

lemma searchText_of_Some: "searchText_of (Some text) cs = Inr (Some (fold_case cs text))"
  by (simp add: searchText_of_def fold_case_def)

section \<open>Matching and counting on a present text\<close>

lemma matches_loop_Some:
  "matches_loop (Some s) terms cs =
     Inr (\<forall>t \<in> set terms. sublist (fold_case cs (term_value t)) s)"
  by (induction terms) (simp_all add: js_includes_iff searchValue_of_fold)

lemma matchesAllTerms_Some:
  "matchesAllTerms (Some text) terms cs = Inr (contains_all_terms cs terms text)"
  by (simp add: matchesAllTerms_def searchText_of_Some matches_loop_Some contains_all_terms_def)

lemma count_loop_nonempty:
  "\<forall>t \<in> set terms. term_value t \<noteq> [] \<Longrightarrow>
   count_loop (Some s) terms cs count =
     Some (Inr (count + sum_list (map (\<lambda>t. nonoverlapping_occurrences
                                             (fold_case cs (term_value t)) s) terms)))"
proof (induction terms arbitrary: count)
  case Nil
  then show ?case by simp
next
  case (Cons t ts)
  then have "fold_case cs (term_value t) \<noteq> []" by (simp add: fold_case_Nil_iff)
  then have "count_from s (searchValue_of t cs) 0 count =
      Some (count + nonoverlapping_occurrences (fold_case cs (term_value t)) s)"
    by (simp add: count_from_nonempty searchValue_of_fold)
  with Cons show ?case by (simp add: add.assoc)
qed

lemma count_loop_empty_value:
  "\<exists>t \<in> set terms. term_value t = [] \<Longrightarrow> count_loop (Some s) terms cs count = None"
proof (induction terms arbitrary: count)
  case Nil
  then show ?case by simp
next
  case (Cons t ts)
  show ?case
  proof (cases "term_value t = []")
    case True
    then have "searchValue_of t cs = []" by (simp add: searchValue_of_fold fold_case_Nil_iff)
    then show ?thesis by (simp add: count_from_empty)
  next
    case False
    with Cons.prems have ex: "\<exists>t \<in> set ts. term_value t = []" by simp
    from False have "fold_case cs (term_value t) \<noteq> []" by (simp add: fold_case_Nil_iff)
    then obtain c' where "count_from s (searchValue_of t cs) 0 count = Some c'"
      by (simp add: count_from_nonempty searchValue_of_fold)
    with Cons.IH [OF ex] show ?thesis by simp
  qed
qed

lemma countMatches_nonempty:
  "\<forall>t \<in> set terms. term_value t \<noteq> [] \<Longrightarrow>
   countMatches (Some text) terms cs = Some (Inr (occurrence_total cs terms text))"
  by (simp add: countMatches_def searchText_of_Some count_loop_nonempty occurrence_total_def)

lemma countMatches_empty_value:
  "\<exists>t \<in> set terms. term_value t = [] \<Longrightarrow> countMatches (Some text) terms cs = None"
  by (simp add: countMatches_def searchText_of_Some count_loop_empty_value)

section \<open>The scan computes the specified result list\<close>

lemma utterance_loop_spec:
  assumes nonempty: "\<forall>t \<in> set terms. term_value t \<noteq> []"
  shows "\<forall>u \<in> set us. utterance_text u \<noteq> None \<Longrightarrow>
    utterance_loop terms f cs us i matching n =
      Some (Inr (matching @ matched_from cs terms f us i,
                 n + sum_list (map matchCount (matched_from cs terms f us i))))"
proof (induction us arbitrary: i matching n)
  case Nil
  then show ?case by simp
next
  case (Cons u us)
  then obtain tx where tx: "utterance_text u = Some tx" by auto
  from Cons.prems have rest: "\<forall>u \<in> set us. utterance_text u \<noteq> None" by simp
  note ih = Cons.IH [OF rest]
  show ?case
  proof (cases "qualifies cs terms f u")
    case True
    then have "\<not> (f \<noteq> ''all'' \<and> speaker_type u \<noteq> f)" and "contains_all_terms cs terms tx"
      using tx by (auto simp: qualifies_def passes_filter_def)
    with True tx show ?thesis
      by (simp add: ih matchesAllTerms_Some countMatches_nonempty [OF nonempty]
          utterance.defs add.assoc)
  next
    case False
    show ?thesis
    proof (cases "f \<noteq> ''all'' \<and> speaker_type u \<noteq> f")
      case True
      with False show ?thesis by (simp add: ih)
    next
      case skip: False
      with False tx have "\<not> contains_all_terms cs terms tx"
        by (auto simp: qualifies_def passes_filter_def)
      with False skip tx show ?thesis
        by (simp add: ih matchesAllTerms_Some)
    qed
  qed
qed

lemma transcript_loop_spec:
  assumes nonempty: "\<forall>t \<in> set terms. term_value t \<noteq> []"
  shows "texts_present corpus \<Longrightarrow>
    transcript_loop terms f cs corpus results g =
      Some (Inr (results @ results_of cs terms f corpus,
                 g + sum_list (map totalMatches (results_of cs terms f corpus))))"
proof (induction corpus arbitrary: results g)
  case Nil
  then show ?case by (simp add: results_of_def)
next
  case (Cons t ts)
  then have here: "\<forall>u \<in> set (utterances t). utterance_text u \<noteq> None"
    and rest: "texts_present ts"
    by (simp_all add: texts_present_def)
  note ih = Cons.IH [OF rest]
  have scan: "utterance_loop terms f cs (utterances t) 0 [] 0 =
      Some (Inr (matched_from cs terms f (utterances t) 0,
                 sum_list (map matchCount (matched_from cs terms f (utterances t) 0))))"
    using utterance_loop_spec [OF nonempty here, of f cs 0 "[]" 0] by simp
  show ?case
  proof (cases "matched_from cs terms f (utterances t) 0 = []")
    case True
    then show ?thesis
      by (simp add: scan ih results_of_def result_of_def)
  next
    case False
    then show ?thesis
      by (simp add: scan ih results_of_def result_of_def Let_def add.assoc)
  qed
qed

section \<open>Terms the parser produces\<close>

lemma quoteRegex_exec_nonempty: "quoteRegex_exec s = Some (m, r) \<Longrightarrow> m \<noteq> []"
  by (induction s) (auto simp: Let_def split: if_splits)

lemma phrase_loop_nonempty:
  "\<forall>t \<in> set terms. term_value t \<noteq> [] \<Longrightarrow>
   \<forall>t \<in> set (fst (phrase_loop rest terms remaining)). term_value t \<noteq> []"
proof (induction rest terms remaining rule: phrase_loop.induct)
  case (1 rest terms remaining)
  show ?case
  proof (cases "quoteRegex_exec rest")
    case None
    with 1(2) show ?thesis by (subst phrase_loop.simps) simp
  next
    case (Some x)
    obtain m r where x: "x = (m, r)" by (cases x)
    with Some have "m \<noteq> []" using quoteRegex_exec_nonempty by blast
    with 1(2) have "\<forall>t \<in> set (terms @ [\<lparr>term_type = Phrase, term_value = m\<rparr>]). term_value t \<noteq> []"
      by simp
    from 1(1) [OF Some x [symmetric] this] Some x show ?thesis
      by (subst phrase_loop.simps) simp
  qed
qed

lemma parseSearchQuery_nonempty_values:
  "\<forall>t \<in> set (parseSearchQuery query). term_value t \<noteq> []"
proof -
  have "\<forall>t \<in> set (fst (phrase_loop query [] query)). term_value t \<noteq> []"
    by (rule phrase_loop_nonempty) simp
  then show ?thesis
    by (cases "phrase_loop query [] query") (auto simp: parseSearchQuery_def Let_def)
qed

lemma parseSearchQuery_Nil: "parseSearchQuery [] = []"
  by (simp add: parseSearchQuery_def phrase_loop.simps trim_def)

section \<open>Facts about the specified result list\<close>

lemma matched_from_member:
  "m \<in> set (matched_from cs terms f us i) \<Longrightarrow>
     utterance_text m \<noteq> None \<and> (f = ''all'' \<or> speaker_type m = f) \<and> int i \<le> index m \<and>
     contains_all_terms cs terms (the (utterance_text m))"
proof (induction us arbitrary: i)
  case Nil
  then show ?case by simp
next
  case (Cons u us)
  show ?case
  proof (cases "m \<in> set (matched_from cs terms f us (Suc i))")
    case True
    from Cons.IH [OF True] show ?thesis by simp
  next
    case False
    with Cons.prems have q: "qualifies cs terms f u"
      and m: "m = utterance.extend u \<lparr>index = int i,
                matchCount = occurrence_total cs terms (the (utterance_text u))\<rparr>"
      by (auto split: if_splits)
    from q m show ?thesis
      by (auto simp: qualifies_def passes_filter_def utterance.defs split: option.splits)
  qed
qed

lemma matched_from_sorted: "sorted_wrt (<) (map index (matched_from cs terms f us i))"
proof (induction us arbitrary: i)
  case Nil
  then show ?case by simp
next
  case (Cons u us)
  have "\<forall>m \<in> set (matched_from cs terms f us (Suc i)). int i < index m"
    using matched_from_member [of _ cs terms f us "Suc i"] by fastforce
  with Cons [of "Suc i"] show ?case
    by (simp add: utterance.defs)
qed

lemma matched_from_Nil_iff:
  "matched_from cs terms f us i = [] \<longleftrightarrow> \<not> (\<exists>u \<in> set us. qualifies cs terms f u)"
  by (induction us arbitrary: i) auto

lemma results_of_transcripts:
  "map result_transcript (results_of cs terms f corpus) =
     filter (\<lambda>t. \<exists>u \<in> set (utterances t). qualifies cs terms f u) corpus"
  by (induction corpus) (simp_all add: results_of_def result_of_def Let_def matched_from_Nil_iff)

lemma results_of_member:
  "r \<in> set (results_of cs terms f corpus) \<Longrightarrow>
     matchingUtterances r = matched_from cs terms f (utterances (result_transcript r)) 0 \<and>
     matchingUtterances r \<noteq> [] \<and>
     totalMatches r = sum_list (map matchCount (matchingUtterances r))"
  by (auto simp: results_of_def result_of_def Let_def)

section \<open>Rendering never fails on matches that have a text\<close>

lemma render_loop_present:
  "\<forall>m \<in> set ms. utterance_text m \<noteq> None \<Longrightarrow> \<exists>h. render_loop re ms prev html = Inr h"
  by (induction ms arbitrary: prev html) (auto simp: Let_def)

lemma cards_loop_present:
  "\<forall>r \<in> set rs. \<forall>m \<in> set (matchingUtterances r). utterance_text m \<noteq> None \<Longrightarrow>
   \<exists>cards. cards_loop re rs html = Inr cards"
proof (induction rs arbitrary: html)
  case Nil
  then show ?case by simp
next
  case (Cons r rs)
  then obtain body where "renderUtterances (result_transcript r) (matchingUtterances r) re = Inr body"
    using render_loop_present [of "matchingUtterances r" re "- 2" "[]"]
    by (auto simp: renderUtterances_def)
  with Cons show ?case by simp
qed

lemma renderResults_present:
  "\<forall>r \<in> set rs. \<forall>m \<in> set (matchingUtterances r). utterance_text m \<noteq> None \<Longrightarrow>
   \<exists>html. renderResults rs terms cs = Inr html"
  using cards_loop_present [of rs "createHighlightRegex terms cs" "[]"]
  by (auto simp: renderResults_def)

section \<open>The search as a whole\<close>

lemma performSearch_spec:
  assumes terms: "parseSearchQuery (trim input) \<noteq> []" and present: "texts_present corpus"
  shows "\<exists>html. performSearch corpus input f cs =
     Some (Inr (SearchDone (results_of cs (parseSearchQuery (trim input)) f corpus)
                  (length (results_of cs (parseSearchQuery (trim input)) f corpus))
                  (sum_list (map totalMatches
                     (results_of cs (parseSearchQuery (trim input)) f corpus)))
                  html))"
proof -
  let ?terms = "parseSearchQuery (trim input)"
  let ?rs = "results_of cs ?terms f corpus"
  have q: "trim input \<noteq> []"
  proof
    assume "trim input = []"
    then have "?terms = []" by (simp add: parseSearchQuery_Nil)
    with terms show False by simp
  qed
  have loop: "transcript_loop ?terms f cs corpus [] 0 =
      Some (Inr (?rs, sum_list (map totalMatches ?rs)))"
    using transcript_loop_spec [OF parseSearchQuery_nonempty_values present, of "trim input" f cs "[]" 0]
    by simp
  have "\<forall>r \<in> set ?rs. \<forall>m \<in> set (matchingUtterances r). utterance_text m \<noteq> None"
    using results_of_member matched_from_member by metis
  then obtain html where "renderResults ?rs ?terms cs = Inr html"
    using renderResults_present by blast
  with q terms loop show ?thesis
    by (simp add: performSearch_def Let_def)
qed

section \<open>Gap markers\<close>

lemma render_loop_gaps:
  assumes "sorted_wrt (<) (map index ms)"
    and "\<forall>m \<in> set ms. 0 \<le> index m \<and> utterance_text m \<noteq> None"
    and "case prev of None \<Rightarrow> True | Some p \<Rightarrow> 0 \<le> p \<and> (\<forall>m \<in> set ms. p < index m)"
  shows "render_loop re ms (case prev of None \<Rightarrow> - 2 | Some p \<Rightarrow> p) html =
           Inr (html @ blocks_with_gaps re prev ms)"
  using assms
proof (induction ms arbitrary: prev html)
  case Nil
  then show ?case by simp
next
  case (Cons u us)
  from Cons.prems obtain tx where tx: "utterance_text u = Some tx" by auto
  from Cons.prems have nonneg: "0 \<le> index u" by simp
  have next_ok: "case Some (index u) of None \<Rightarrow> True
                 | Some p \<Rightarrow> 0 \<le> p \<and> (\<forall>m \<in> set us. p < index m)"
    using Cons.prems(1) nonneg by simp
  from Cons.prems have rest: "sorted_wrt (<) (map index us)"
    "\<forall>m \<in> set us. 0 \<le> index m \<and> utterance_text m \<noteq> None"
    by simp_all
  have ih: "render_loop re us (index u) h = Inr (h @ blocks_with_gaps re (Some (index u)) us)" for h
    using Cons.IH [OF rest next_ok, of h] by simp
  show ?case
  proof (cases prev)
    case None
    with tx nonneg show ?thesis
      by (simp add: ih utterance_block_def)
  next
    case (Some p)
    with Cons.prems(3) have "0 \<le> p" "p < index u" by simp_all
    then have "(index u > p + 1 \<and> p \<ge> 0) \<longleftrightarrow> index u \<noteq> p + 1" by auto
    with Some tx show ?thesis
      by (simp add: ih utterance_block_def)
  qed
qed

section \<open>Utterances the speaker filter hides\<close>

lemma utterance_loop_hidden:
  assumes "f \<noteq> ''all''"
  shows "list_all2 (hidden_pair f) us us' \<Longrightarrow>
    utterance_loop terms f cs us i matching n = utterance_loop terms f cs us' i matching n"
proof (induction us us' arbitrary: i matching n rule: list_all2_induct)
  case Nil
  then show ?case by simp
next
  case (Cons u us u' us')
  show ?case
  proof (cases "u = u'")
    case True
    with assms show ?thesis
      by (simp add: Cons.IH split: sum.splits bool.splits option.splits)
  next
    case False
    with Cons.hyps(1) have "speaker_type u \<noteq> f" "speaker_type u' \<noteq> f"
      by (simp_all add: hidden_pair_def)
    with assms show ?thesis by (simp add: Cons.IH)
  qed
qed

lemma utterance_loop_Cons_cases:
  assumes "utterance_loop terms f cs (u # us) i matching n = Some (Inr r)"
  shows "utterance_loop terms f cs us (Suc i) matching n = Some (Inr r) \<or>
    (\<not> (f \<noteq> ''all'' \<and> speaker_type u \<noteq> f) \<and>
     (\<exists>k. utterance_loop terms f cs us (Suc i)
             (matching @ [utterance.extend u \<lparr>index = int i, matchCount = k\<rparr>]) (n + k) =
           Some (Inr r)))"
proof (cases "f \<noteq> ''all'' \<and> speaker_type u \<noteq> f")
  case True
  with assms show ?thesis by simp
next
  case False
  with assms show ?thesis
    by (simp split: sum.splits bool.splits option.splits) blast
qed

lemma utterance_loop_invariant:
  assumes "f \<noteq> ''all''"
  shows "utterance_loop terms f cs us i matching n = Some (Inr (matching', n')) \<Longrightarrow>
    \<forall>m \<in> set matching. speaker_type m = f \<Longrightarrow>
    \<forall>m \<in> set matching'. speaker_type m = f"
proof (induction us arbitrary: i matching n)
  case Nil
  then show ?case by simp
next
  case (Cons u us)
  from utterance_loop_Cons_cases [OF Cons.prems(1)] show ?case
  proof
    assume "utterance_loop terms f cs us (Suc i) matching n = Some (Inr (matching', n'))"
    from Cons.IH [OF this Cons.prems(2)] show ?thesis .
  next
    assume "\<not> (f \<noteq> ''all'' \<and> speaker_type u \<noteq> f) \<and>
      (\<exists>k. utterance_loop terms f cs us (Suc i)
              (matching @ [utterance.extend u \<lparr>index = int i, matchCount = k\<rparr>]) (n + k) =
            Some (Inr (matching', n')))"
    with assms obtain k where u: "speaker_type u = f"
      and loop: "utterance_loop terms f cs us (Suc i)
              (matching @ [utterance.extend u \<lparr>index = int i, matchCount = k\<rparr>]) (n + k) =
            Some (Inr (matching', n'))"
      by auto
    from u Cons.prems(2)
    have "\<forall>m \<in> set (matching @ [utterance.extend u \<lparr>index = int i, matchCount = k\<rparr>]).
            speaker_type m = f"
      by (simp add: utterance.defs)
    from Cons.IH [OF loop this] show ?thesis .
  qed
qed

lemma utterance_loop_total:
  "utterance_loop terms f cs us i matching n = Some (Inr (matching', n')) \<Longrightarrow>
    n = sum_list (map matchCount matching) \<Longrightarrow>
    n' = sum_list (map matchCount matching')"
proof (induction us arbitrary: i matching n)
  case Nil
  then show ?case by auto
next
  case (Cons u us)
  from utterance_loop_Cons_cases [OF Cons.prems(1)] show ?case
  proof
    assume "utterance_loop terms f cs us (Suc i) matching n = Some (Inr (matching', n'))"
    from Cons.IH [OF this Cons.prems(2)] show ?thesis .
  next
    assume "\<not> (f \<noteq> ''all'' \<and> speaker_type u \<noteq> f) \<and>
      (\<exists>k. utterance_loop terms f cs us (Suc i)
              (matching @ [utterance.extend u \<lparr>index = int i, matchCount = k\<rparr>]) (n + k) =
            Some (Inr (matching', n')))"
    then obtain k where
      loop: "utterance_loop terms f cs us (Suc i)
              (matching @ [utterance.extend u \<lparr>index = int i, matchCount = k\<rparr>]) (n + k) =
            Some (Inr (matching', n'))"
      by auto
    from Cons.prems(2)
    have "n + k = sum_list (map matchCount
            (matching @ [utterance.extend u \<lparr>index = int i, matchCount = k\<rparr>]))"
      by (simp add: utterance.defs)
    from Cons.IH [OF loop this] show ?thesis .
  qed
qed

lemma transcript_loop_hidden:
  assumes "f \<noteq> ''all''"
  shows "list_all2 (hidden_variant f) c c' \<Longrightarrow> list_all2 same_matches rs rs' \<Longrightarrow>
    rel_option (rel_sum (=) (rel_prod (list_all2 same_matches) (=)))
      (transcript_loop terms f cs c rs g) (transcript_loop terms f cs c' rs' g)"
proof (induction c c' arbitrary: rs rs' g rule: list_all2_induct)
  case Nil
  then show ?case by simp
next
  case (Cons t ts t' ts')
  from Cons.hyps(1) have same: "utterance_loop terms f cs (utterances t) 0 [] 0 =
      utterance_loop terms f cs (utterances t') 0 [] 0"
    and ids: "transcript_id t = transcript_id t'" "transcript_name t = transcript_name t'"
    using utterance_loop_hidden [OF assms] by (simp_all add: hidden_variant_def)
  show ?case
  proof (cases "utterance_loop terms f cs (utterances t') 0 [] 0")
    case None
    with same show ?thesis by simp
  next
    case (Some x)
    show ?thesis
    proof (cases x)
      case (Inl e)
      with Some same show ?thesis by simp
    next
      case (Inr p)
      obtain matching k where p: "p = (matching, k)" by (cases p)
      show ?thesis
      proof (cases "matching = []")
        case True
        with Some Inr p same Cons.IH [OF Cons.prems] show ?thesis by simp
      next
        case False
        have "list_all2 same_matches
            (rs @ [\<lparr>result_transcript = t, matchingUtterances = matching, totalMatches = k\<rparr>])
            (rs' @ [\<lparr>result_transcript = t', matchingUtterances = matching, totalMatches = k\<rparr>])"
        proof (rule list_all2_appendI)
          show "list_all2 same_matches rs rs'" by (rule Cons.prems)
          show "list_all2 same_matches
              [\<lparr>result_transcript = t, matchingUtterances = matching, totalMatches = k\<rparr>]
              [\<lparr>result_transcript = t', matchingUtterances = matching, totalMatches = k\<rparr>]"
            using ids by (simp add: same_matches_def)
        qed
        from Cons.IH [OF this] False Some Inr p same show ?thesis by simp
      qed
    qed
  qed
qed

lemma cards_loop_same:
  "list_all2 same_matches rs rs' \<Longrightarrow> cards_loop re rs html = cards_loop re rs' html"
proof (induction rs rs' arbitrary: html rule: list_all2_induct)
  case Nil
  then show ?case by simp
next
  case (Cons r rs r' rs')
  then show ?case
    by (simp add: same_matches_def renderUtterances_def split: sum.splits)
qed

lemma renderResults_same:
  "list_all2 same_matches rs rs' \<Longrightarrow> renderResults rs terms cs = renderResults rs' terms cs"
  using cards_loop_same [of rs rs'] list_all2_lengthD [of same_matches rs rs']
  by (simp add: renderResults_def)

lemma same_matches_data:
  "list_all2 same_matches rs rs' \<Longrightarrow>
   map (\<lambda>r. (matchingUtterances r, totalMatches r)) rs =
   map (\<lambda>r. (matchingUtterances r, totalMatches r)) rs'"
  by (induction rs rs' rule: list_all2_induct) (simp_all add: same_matches_def)

lemma performSearch_hidden:
  assumes f: "f \<noteq> ''all''" and c: "list_all2 (hidden_variant f) c c'"
  shows "map_option (map_sum id match_data) (performSearch c input f cs) =
         map_option (map_sum id match_data) (performSearch c' input f cs)"
proof (cases "trim input = [] \<or> parseSearchQuery (trim input) = []")
  case True
  then show ?thesis by (auto simp: performSearch_def Let_def)
next
  case False
  let ?terms = "parseSearchQuery (trim input)"
  have rel: "rel_option (rel_sum (=) (rel_prod (list_all2 same_matches) (=)))
      (transcript_loop ?terms f cs c [] 0) (transcript_loop ?terms f cs c' [] 0)"
    using transcript_loop_hidden [OF f c, of "[]" "[]" ?terms cs 0] by simp
  show ?thesis
  proof (cases "transcript_loop ?terms f cs c [] 0")
    case None
    with rel have "transcript_loop ?terms f cs c' [] 0 = None" by (simp add: option_rel_Some1 split: option.splits)
    with None False show ?thesis by (simp add: performSearch_def Let_def)
  next
    case (Some x)
    with rel obtain x' where x': "transcript_loop ?terms f cs c' [] 0 = Some x'"
      and xx: "rel_sum (=) (rel_prod (list_all2 same_matches) (=)) x x'"
      by (auto simp: option_rel_Some1)
    show ?thesis
    proof (cases x)
      case (Inl e)
      with xx have "x' = Inl e" by (cases x') simp_all
      with Inl Some x' False show ?thesis by (simp add: performSearch_def Let_def)
    next
      case (Inr p)
      with xx obtain p' where p': "x' = Inr p'" and pp: "rel_prod (list_all2 same_matches) (=) p p'"
        by (cases x') simp_all
      obtain rs g where p: "p = (rs, g)" by (cases p)
      with pp obtain rs' where p'': "p' = (rs', g)" and rr: "list_all2 same_matches rs rs'"
        by (cases p') simp_all
      from rr have len: "length rs = length rs'" by (rule list_all2_lengthD)
      from Some x' Inr p' p p'' False len
        renderResults_same [OF rr, of ?terms cs] same_matches_data [OF rr]
      show ?thesis
        by (simp add: performSearch_def Let_def split: sum.splits)
    qed
  qed
qed

lemma transcript_loop_invariant:
  "transcript_loop terms f cs c rs g = Some (Inr (rs', g')) \<Longrightarrow>
   filtered_totals f rs \<Longrightarrow> g = sum_list (map totalMatches rs) \<Longrightarrow>
   filtered_totals f rs' \<and> g' = sum_list (map totalMatches rs')"
proof (induction c arbitrary: rs g)
  case Nil
  then show ?case by auto
next
  case (Cons t ts)
  from Cons.prems(1) obtain matching k where
    scan: "utterance_loop terms f cs (utterances t) 0 [] 0 = Some (Inr (matching, k))"
    by (auto split: option.splits sum.splits)
  have k: "k = sum_list (map matchCount matching)"
    using utterance_loop_total [OF scan] by simp
  have sp: "f \<noteq> ''all'' \<Longrightarrow> \<forall>m \<in> set matching. speaker_type m = f"
    using utterance_loop_invariant [OF _ scan] by simp
  show ?case
  proof (cases "matching = []")
    case True
    with scan Cons.prems(1)
    have "transcript_loop terms f cs ts rs g = Some (Inr (rs', g'))" by simp
    from Cons.IH [OF this Cons.prems(2,3)] show ?thesis .
  next
    case False
    let ?r = "\<lparr>result_transcript = t, matchingUtterances = matching, totalMatches = k\<rparr>"
    from False scan Cons.prems(1)
    have loop: "transcript_loop terms f cs ts (rs @ [?r]) (g + k) = Some (Inr (rs', g'))"
      by simp
    have ok: "filtered_totals f (rs @ [?r])"
      using Cons.prems(2) k sp by (auto simp: filtered_totals_def)
    have "g + k = sum_list (map totalMatches (rs @ [?r]))"
      using Cons.prems(3) by simp
    from Cons.IH [OF loop ok this] show ?thesis .
  qed
qed

lemma performSearch_totals:
  assumes "performSearch c input f cs = Some (Inr (SearchDone rs k g html))"
  shows "filtered_totals f rs \<and> g = sum_list (map totalMatches rs) \<and> k = length rs"
proof -
  let ?terms = "parseSearchQuery (trim input)"
  from assms obtain rs0 g0 where
    loop: "transcript_loop ?terms f cs c [] 0 = Some (Inr (rs0, g0))"
    and out: "rs = rs0" "g = g0" "k = length rs0"
    by (auto simp: performSearch_def Let_def split: if_splits option.splits sum.splits)
  from transcript_loop_invariant [OF loop] out show ?thesis
    by (simp add: filtered_totals_def)
qed

section \<open>The result list\<close>

text \<open>
  Claim C1. Take a corpus whose utterances all have a text, as the data model has it, and
  a search box value whose trimmed form parses to at least one term. Then the search
  ends with a result list, and the transcripts of that list are exactly the transcripts
  of the corpus, in corpus order, that have at least one utterance which passes the
  speaker filter and contains every parsed term as a substring, case folded unless the
  search is case sensitive. A transcript without such an utterance has no entry, and no
  entry has an empty list of matching utterances.
\<close>

theorem transcript_in_results_iff_qualifies:
  assumes "parseSearchQuery (trim input) \<noteq> []" and "texts_present corpus"
  shows "\<exists>results g html.
      performSearch corpus input f cs =
        Some (Inr (SearchDone results (length results) g html)) \<and>
      map result_transcript results =
        filter (\<lambda>t. \<exists>u \<in> set (utterances t).
                  qualifies cs (parseSearchQuery (trim input)) f u) corpus \<and>
      (\<forall>r \<in> set results. matchingUtterances r \<noteq> [])"
proof -
  from performSearch_spec [OF assms, of f cs] obtain html where
    "performSearch corpus input f cs =
       Some (Inr (SearchDone (results_of cs (parseSearchQuery (trim input)) f corpus)
                    (length (results_of cs (parseSearchQuery (trim input)) f corpus))
                    (sum_list (map totalMatches
                       (results_of cs (parseSearchQuery (trim input)) f corpus)))
                    html))"
    by blast
  moreover have "\<forall>r \<in> set (results_of cs (parseSearchQuery (trim input)) f corpus).
      matchingUtterances r \<noteq> []"
    using results_of_member by blast
  ultimately show ?thesis
    using results_of_transcripts by blast
qed

text \<open>
  The query \<open>help\<close> over the two example transcripts with no speaker filter: the first
  transcript is listed, the second, which has no utterance with that word, is not.
\<close>

theorem transcript_in_results_iff_qualifies_witness:
  "parseSearchQuery (trim '' help '') \<noteq> [] \<and> texts_present [call_one, call_two] \<and>
   (\<exists>results g html.
      performSearch [call_one, call_two] '' help '' ''all'' False =
        Some (Inr (SearchDone results (length results) g html)) \<and>
      map result_transcript results = [call_one] \<and>
      (\<forall>r \<in> set results. matchingUtterances r \<noteq> []))"
proof -
  have q: "parseSearchQuery (trim '' help '') \<noteq> []" by code_simp
  have p: "texts_present [call_one, call_two]" by code_simp
  have "filter (\<lambda>t. \<exists>u \<in> set (utterances t).
                  qualifies False (parseSearchQuery (trim '' help '')) ''all'' u)
          [call_one, call_two] = [call_one]"
    by code_simp
  with transcript_in_results_iff_qualifies [OF q p, of "''all''" False] q p
  show ?thesis by simp
qed

section \<open>The matcher and the empty term list\<close>

text \<open>
  Claim C2, as amended. On a present text and an empty term list \<open>matchesAllTerms\<close> returns
  true, not false: its loop body never runs. The empty list is kept away from it by the
  caller: when the trimmed query parses to no term, \<open>performSearch\<close> shows the empty state
  and scans nothing.
\<close>

theorem matchesAllTerms_empty_list_true_and_guarded:
  "matchesAllTerms (Some tx) [] cs = Inr True \<and>
   (parseSearchQuery (trim input) = [] \<longrightarrow>
      performSearch corpus input f c = Some (Inr EmptyState))"
  by (simp add: matchesAllTerms_Some contains_all_terms_def performSearch_def Let_def)

text \<open>A query of one semicolon between blanks parses to no term.\<close>

theorem matchesAllTerms_empty_list_true_and_guarded_witness:
  "parseSearchQuery (trim '' ; '') = [] \<and>
   matchesAllTerms (Some ''Hello'') [] False = Inr True \<and>
   performSearch [call_one] '' ; '' ''all'' False = Some (Inr EmptyState)"
proof -
  have "parseSearchQuery (trim '' ; '') = []" by code_simp
  with matchesAllTerms_empty_list_true_and_guarded
         [of "''Hello''" False "'' ; ''" "[call_one]" "''all''" False]
  show ?thesis by simp
qed

text \<open>
  Claim C2 as stated fails: on the text \<open>Hello\<close> and the empty term list the answer is not
  false.
\<close>

theorem matchesAllTerms_empty_list_not_false:
  "\<not> (matchesAllTerms (Some ''Hello'') [] False = Inr False)"
  by (simp add: matchesAllTerms_Some contains_all_terms_def)

section \<open>Parsing a pair of empty quotes\<close>

text \<open>
  Claim C3, as amended. Parsing the query that consists of two adjacent double quotes
  yields no phrase term, since the quote pattern wants at least one code unit between
  the quotes; the two quotes stay in the remainder and become one keyword term whose
  value is the two quotes.
\<close>

theorem parse_empty_quotes_keyword:
  \<open>parseSearchQuery ''""'' = [\<lparr>term_type = Keyword, term_value = ''""''\<rparr>]\<close>
  by code_simp

text \<open>Claim C3 as stated fails: the term list of that query is not empty.\<close>

theorem parse_empty_quotes_not_zero_terms:
  \<open>\<not> (parseSearchQuery ''""'' = [])\<close>
  by code_simp

section \<open>Order of the parsed terms\<close>

text \<open>
  Claim C4, as amended. Parsing the query of the phrase \<open>a b\<close>, the keyword \<open>c\<close> and the
  phrase \<open>d\<close>, separated by semicolons, yields exactly three terms with the quotes
  stripped from the phrase values, the phrases first in order of appearance and the
  keyword after them: phrase \<open>a b\<close>, phrase \<open>d\<close>, keyword \<open>c\<close>.
\<close>

theorem parse_example_phrases_first:
  \<open>parseSearchQuery ''"a b";c;"d"'' =
     [\<lparr>term_type = Phrase, term_value = ''a b''\<rparr>,
      \<lparr>term_type = Phrase, term_value = ''d''\<rparr>,
      \<lparr>term_type = Keyword, term_value = ''c''\<rparr>]\<close>
  by code_simp

text \<open>
  Claim C4 as stated fails: the result is not the list phrase \<open>a b\<close>, keyword \<open>c\<close>,
  phrase \<open>d\<close>.
\<close>

theorem parse_example_not_in_appearance_order:
  \<open>\<not> (parseSearchQuery ''"a b";c;"d"'' =
        [\<lparr>term_type = Phrase, term_value = ''a b''\<rparr>,
         \<lparr>term_type = Keyword, term_value = ''c''\<rparr>,
         \<lparr>term_type = Phrase, term_value = ''d''\<rparr>])\<close>
  by code_simp

section \<open>Counting matches\<close>

text \<open>
  Claim C5, as amended. For every text, every case-sensitivity flag and every term list
  in which each term has a non-empty value, \<open>countMatches\<close> returns the sum over all
  terms of the number of non-overlapping, left-to-right occurrences of the term's value
  in the text, the reading going on right behind the end of each occurrence found, with
  both sides case folded unless the count is case sensitive. In particular the count of
  the keyword \<open>aa\<close> in the text \<open>aaa\<close> is 1.
\<close>

theorem countMatches_sums_occurrences:
  "((\<forall>t \<in> set terms. term_value t \<noteq> []) \<longrightarrow>
     countMatches (Some tx) terms cs = Some (Inr (occurrence_total cs terms tx))) \<and>
   countMatches (Some ''aaa'') [\<lparr>term_type = Keyword, term_value = ''aa''\<rparr>] False =
     Some (Inr 1)"
proof -
  have "occurrence_total False [\<lparr>term_type = Keyword, term_value = ''aa''\<rparr>] ''aaa'' = 1"
    by code_simp
  then have "countMatches (Some ''aaa'') [\<lparr>term_type = Keyword, term_value = ''aa''\<rparr>] False =
      Some (Inr 1)"
    by (simp add: countMatches_nonempty)
  then show ?thesis
    by (simp add: countMatches_nonempty)
qed

text \<open>
  The phrase \<open>AB\<close> and the keyword \<open>bc\<close> in \<open>abcABCab\<close>, case folded: three occurrences of
  the first and two of the second, which overlap the first ones and count all the same.
\<close>

theorem countMatches_sums_occurrences_witness:
  "term_value \<lparr>term_type = Phrase, term_value = ''AB''\<rparr> \<noteq> [] \<and>
   term_value \<lparr>term_type = Keyword, term_value = ''bc''\<rparr> \<noteq> [] \<and>
   countMatches (Some ''abcABCab'')
     [\<lparr>term_type = Phrase, term_value = ''AB''\<rparr>, \<lparr>term_type = Keyword, term_value = ''bc''\<rparr>]
     False = Some (Inr 5)"
proof -
  have "occurrence_total False
      [\<lparr>term_type = Phrase, term_value = ''AB''\<rparr>, \<lparr>term_type = Keyword, term_value = ''bc''\<rparr>]
      ''abcABCab'' = 5"
    by code_simp
  with countMatches_sums_occurrences
         [of "[\<lparr>term_type = Phrase, term_value = ''AB''\<rparr>,
               \<lparr>term_type = Keyword, term_value = ''bc''\<rparr>]" "''abcABCab''" False]
  show ?thesis by simp
qed

text \<open>
  Claim C5 as stated fails for a term list with an empty value: the scan for the empty
  string finds it at the same position again and again, and the call does not return.
\<close>

theorem countMatches_empty_value_no_return:
  "countMatches (Some ''a'') [\<lparr>term_type = Keyword, term_value = []\<rparr>] False = None"
  by (rule countMatches_empty_value) simp

section \<open>The speaker filter\<close>

text \<open>
  Claim C6. Let the speaker filter be \<open>agent\<close> or \<open>customer\<close>, or any value other than
  \<open>all\<close>. An utterance of another speaker type is skipped before matching: replacing
  such utterances by any others of a speaker type the filter excludes, whatever their
  text, changes nothing in the outcome of the search, that is in the lists of matching
  utterances, the transcript totals, the two counters and the rendered cards, for every
  query and corpus. Moreover every matching utterance has the speaker type of the
  filter, every transcript total is the sum of the match counts of its matching
  utterances, and the global total is the sum of the transcript totals.
\<close>

theorem filtered_utterance_invisible:
  assumes "f \<noteq> ''all''" and "list_all2 (hidden_variant f) corpus corpus'"
  shows "map_option (map_sum id match_data) (performSearch corpus input f cs) =
         map_option (map_sum id match_data) (performSearch corpus' input f cs) \<and>
         (\<forall>rs k g html.
            performSearch corpus input f cs = Some (Inr (SearchDone rs k g html)) \<longrightarrow>
            filtered_totals f rs \<and> g = sum_list (map totalMatches rs))"
  using performSearch_hidden [OF assms] performSearch_totals by blast

text \<open>
  Filter \<open>agent\<close>, query \<open>he\<close>: the customer utterance of the first example transcript
  contains \<open>he\<close>, yet only the agent utterance is listed, with its two occurrences, and
  the outcome is the same when the customer utterance has no text at all.
\<close>

theorem filtered_utterance_invisible_witness:
  "''agent'' \<noteq> ''all'' \<and> list_all2 (hidden_variant ''agent'') [call_one] [call_one_damaged] \<and>
   map_option (map_sum id match_data) (performSearch [call_one] ''he'' ''agent'' False) =
   map_option (map_sum id match_data) (performSearch [call_one_damaged] ''he'' ''agent'' False) \<and>
   performSearch [call_one] ''he'' ''agent'' False =
     Some (Inr (SearchDone
       [\<lparr>result_transcript = call_one,
         matchingUtterances = [utterance.extend agent_hello \<lparr>index = 0, matchCount = 2\<rparr>],
         totalMatches = 2\<rparr>]
       1 2
       (Cards [TranscriptCard ''call-1'' ''call-1'' 2
          [UtteranceBlock ''agent'' ''Agent'' ''0:00'' ''0:02''
             (highlight_mark ''He'' @ ''llo t'' @ highlight_mark ''he'' @ ''re'')]]))) \<and>
   filtered_totals ''agent''
     [\<lparr>result_transcript = call_one,
       matchingUtterances = [utterance.extend agent_hello \<lparr>index = 0, matchCount = 2\<rparr>],
       totalMatches = 2\<rparr>]"
proof -
  have f: "''agent'' \<noteq> ''all''" by simp
  have v: "list_all2 (hidden_variant ''agent'') [call_one] [call_one_damaged]"
    by (simp add: hidden_variant_def hidden_pair_def call_one_damaged_def call_one_def
        customer_help_def customer_no_text_def)
  have e: "performSearch [call_one] ''he'' ''agent'' False =
     Some (Inr (SearchDone
       [\<lparr>result_transcript = call_one,
         matchingUtterances = [utterance.extend agent_hello \<lparr>index = 0, matchCount = 2\<rparr>],
         totalMatches = 2\<rparr>]
       1 2
       (Cards [TranscriptCard ''call-1'' ''call-1'' 2
          [UtteranceBlock ''agent'' ''Agent'' ''0:00'' ''0:02''
             (highlight_mark ''He'' @ ''llo t'' @ highlight_mark ''he'' @ ''re'')]])))"
    by code_simp
  from filtered_utterance_invisible [OF f v, of "''he''" False] f v e
  show ?thesis by blast
qed

section \<open>Gap markers between matches\<close>

text \<open>
  Claim C7. For every list of matched utterances in ascending order of their indices,
  which are positions and so not negative, \<open>renderUtterances\<close> emits a gap marker in
  front of a matched utterance exactly when a previous match exists and the index is not
  the previous index plus one; in front of the first match there is none. In particular
  for matches at the indices 2, 3 and 7 exactly one gap marker is emitted, between the
  blocks of index 3 and index 7.
\<close>

theorem gap_marker_between_noncontiguous_matches:
  "(sorted_wrt (<) (map index ms) \<and>
    (\<forall>m \<in> set ms. 0 \<le> index m \<and> utterance_text m \<noteq> None) \<longrightarrow>
      renderUtterances tr ms re = Inr (blocks_with_gaps re None ms)) \<and>
   (index a = 2 \<and> index b = 3 \<and> index c = 7 \<and>
    utterance_text a \<noteq> None \<and> utterance_text b \<noteq> None \<and> utterance_text c \<noteq> None \<longrightarrow>
      renderUtterances tr [a, b, c] re =
        Inr [utterance_block re a, utterance_block re b, ContextIndicator,
             utterance_block re c])"
proof -
  have general: "renderUtterances tr ms re = Inr (blocks_with_gaps re None ms)"
    if "sorted_wrt (<) (map index ms)"
      and "\<forall>m \<in> set ms. 0 \<le> index m \<and> utterance_text m \<noteq> None"
    for ms
    using render_loop_gaps [OF that, of None re "[]"] by (simp add: renderUtterances_def)
  have "renderUtterances tr [a, b, c] re =
        Inr [utterance_block re a, utterance_block re b, ContextIndicator,
             utterance_block re c]"
    if "index a = 2 \<and> index b = 3 \<and> index c = 7 \<and>
        utterance_text a \<noteq> None \<and> utterance_text b \<noteq> None \<and> utterance_text c \<noteq> None"
    using general [of "[a, b, c]"] that by simp
  with general show ?thesis by blast
qed

text \<open>Three matches at the indices 2, 3 and 7, highlighted for the keyword \<open>e\<close>.\<close>

theorem gap_marker_between_noncontiguous_matches_witness:
  "sorted_wrt (<) (map index
     [utterance.extend customer_help \<lparr>index = 2, matchCount = 1\<rparr>,
      utterance.extend agent_hello \<lparr>index = 3, matchCount = 1\<rparr>,
      utterance.extend agent_bye \<lparr>index = 7, matchCount = 1\<rparr>]) \<and>
   renderUtterances call_one
     [utterance.extend customer_help \<lparr>index = 2, matchCount = 1\<rparr>,
      utterance.extend agent_hello \<lparr>index = 3, matchCount = 1\<rparr>,
      utterance.extend agent_bye \<lparr>index = 7, matchCount = 1\<rparr>]
     (createHighlightRegex [\<lparr>term_type = Keyword, term_value = ''e''\<rparr>] False) =
   Inr [UtteranceBlock ''customer'' ''Customer'' ''0:03'' ''0:05''
          (''I n'' @ highlight_mark ''e'' @ highlight_mark ''e'' @ ''d h'' @ highlight_mark ''e''
             @ ''lp''),
        UtteranceBlock ''agent'' ''Agent'' ''0:00'' ''0:02''
          (''H'' @ highlight_mark ''e'' @ ''llo th'' @ highlight_mark ''e'' @ ''r''
             @ highlight_mark ''e''),
        ContextIndicator,
        UtteranceBlock ''agent'' ''Agent'' ''0:00'' ''0:01''
          (''Goodby'' @ highlight_mark ''e'')]"
proof -
  let ?a = "utterance.extend customer_help \<lparr>index = 2, matchCount = 1\<rparr>"
  let ?b = "utterance.extend agent_hello \<lparr>index = 3, matchCount = 1\<rparr>"
  let ?c = "utterance.extend agent_bye \<lparr>index = 7, matchCount = 1\<rparr>"
  let ?re = "createHighlightRegex [\<lparr>term_type = Keyword, term_value = ''e''\<rparr>] False"
  have h1: "sorted_wrt (<) (map index [?a, ?b, ?c])" by (simp add: utterance.defs)
  have h2: "\<forall>m \<in> set [?a, ?b, ?c]. 0 \<le> index m \<and> utterance_text m \<noteq> None"
    by (simp add: utterance.defs agent_hello_def agent_bye_def customer_help_def)
  have h3: "index ?a = 2 \<and> index ?b = 3 \<and> index ?c = 7 \<and>
    utterance_text ?a \<noteq> None \<and> utterance_text ?b \<noteq> None \<and> utterance_text ?c \<noteq> None"
    by (simp add: utterance.defs agent_hello_def agent_bye_def customer_help_def)
  have v: "[utterance_block ?re ?a, utterance_block ?re ?b, ContextIndicator,
            utterance_block ?re ?c] =
      [UtteranceBlock ''customer'' ''Customer'' ''0:03'' ''0:05''
          (''I n'' @ highlight_mark ''e'' @ highlight_mark ''e'' @ ''d h'' @ highlight_mark ''e''
             @ ''lp''),
        UtteranceBlock ''agent'' ''Agent'' ''0:00'' ''0:02''
          (''H'' @ highlight_mark ''e'' @ ''llo th'' @ highlight_mark ''e'' @ ''r''
             @ highlight_mark ''e''),
        ContextIndicator,
        UtteranceBlock ''agent'' ''Agent'' ''0:00'' ''0:01''
          (''Goodby'' @ highlight_mark ''e'')]"
    by code_simp
  from gap_marker_between_noncontiguous_matches [of "[?a, ?b, ?c]" call_one ?re ?a ?b ?c]
    h1 h2 h3 v
  show ?thesis by (simp del: sorted_wrt.simps)
qed

section \<open>Utterances without a text\<close>

lemma sublist_of_empty_text:
  "terms \<noteq> [] \<Longrightarrow> \<forall>t \<in> set terms. term_value t \<noteq> [] \<Longrightarrow> \<not> contains_all_terms cs terms []"
  by (cases terms) (simp_all add: contains_all_terms_def fold_case_def toLowerCase_def)

text \<open>
  Claim C8, as amended. For every corpus in which each utterance has a text, every
  search box value, speaker filter and case-sensitivity flag, the search returns and
  raises no error, the scan of all transcripts having run to its end; and an utterance
  whose text is the empty string is never among the matching utterances.
\<close>

theorem search_completes_when_texts_present:
  assumes "texts_present corpus"
  shows "(\<exists>d. performSearch corpus input f cs = Some (Inr d)) \<and>
         (\<forall>rs k g html.
            performSearch corpus input f cs = Some (Inr (SearchDone rs k g html)) \<longrightarrow>
            (\<forall>r \<in> set rs. \<forall>m \<in> set (matchingUtterances r). utterance_text m \<noteq> Some []))"
proof (cases "parseSearchQuery (trim input) = []")
  case True
  then show ?thesis by (simp add: performSearch_def Let_def)
next
  case False
  let ?terms = "parseSearchQuery (trim input)"
  from performSearch_spec [OF False assms, of f cs] obtain html where
    run: "performSearch corpus input f cs =
       Some (Inr (SearchDone (results_of cs ?terms f corpus)
                    (length (results_of cs ?terms f corpus))
                    (sum_list (map totalMatches (results_of cs ?terms f corpus))) html))"
    by blast
  have "utterance_text m \<noteq> Some []"
    if "r \<in> set (results_of cs ?terms f corpus)" and "m \<in> set (matchingUtterances r)" for r m
  proof
    assume empty: "utterance_text m = Some []"
    from that results_of_member [of r cs ?terms f corpus]
    have "m \<in> set (matched_from cs ?terms f (utterances (result_transcript r)) 0)" by simp
    from matched_from_member [OF this] empty have "contains_all_terms cs ?terms []" by simp
    with sublist_of_empty_text [OF False parseSearchQuery_nonempty_values] show False by blast
  qed
  with run show ?thesis by auto
qed

text \<open>The query \<open>help\<close>, customers only, case sensitive, over the two example transcripts.\<close>

theorem search_completes_when_texts_present_witness:
  "texts_present [call_one, call_two] \<and>
   performSearch [call_one, call_two] ''help'' ''customer'' True =
     Some (Inr (SearchDone
       [\<lparr>result_transcript = call_one,
         matchingUtterances = [utterance.extend customer_help \<lparr>index = 1, matchCount = 1\<rparr>],
         totalMatches = 1\<rparr>]
       1 1
       (Cards [TranscriptCard ''call-1'' ''call-1'' 1
          [UtteranceBlock ''customer'' ''Customer'' ''0:03'' ''0:05''
             (''I need '' @ highlight_mark ''help'')]]))) \<and>
   utterance_text (utterance.extend customer_help \<lparr>index = 1, matchCount = 1\<rparr>) \<noteq> Some []"
proof -
  have p: "texts_present [call_one, call_two]" by code_simp
  have e: "performSearch [call_one, call_two] ''help'' ''customer'' True =
     Some (Inr (SearchDone
       [\<lparr>result_transcript = call_one,
         matchingUtterances = [utterance.extend customer_help \<lparr>index = 1, matchCount = 1\<rparr>],
         totalMatches = 1\<rparr>]
       1 1
       (Cards [TranscriptCard ''call-1'' ''call-1'' 1
          [UtteranceBlock ''customer'' ''Customer'' ''0:03'' ''0:05''
             (''I need '' @ highlight_mark ''help'')]])))"
    by code_simp
  from search_completes_when_texts_present [OF p, of "''help''" "''customer''" True] p e
  show ?thesis by simp
qed

text \<open>
  Claim C8 as stated fails: when the scan reaches an utterance without a text,
  \<open>matchesAllTerms\<close> calls a method on the absent value and the search ends with a
  \<open>TypeError\<close>.
\<close>

theorem missing_text_raises:
  "performSearch [call_one_damaged] ''help'' ''all'' False = Some (Inl TypeError)"
  by code_simp

section \<open>Highlighting with no terms\<close>

text \<open>
  Claim C9, as amended. For every text and every case-sensitivity flag,
  \<open>highlightTextInModal\<close> with an empty or absent term list returns the text unmodified.
  The pattern of \<open>createHighlightRegex\<close> is only ever applied with a non-empty term list:
  \<open>performSearch\<close> renders results only when the trimmed query parsed to at least one
  term.
\<close>

theorem modal_highlight_empty_terms_unmodified:
  "highlightTextInModal tx (Some []) cs = Inr tx \<and>
   highlightTextInModal tx None cs = Inr tx \<and>
   (performSearch corpus input f c = Some (Inr (SearchDone rs k g html)) \<longrightarrow>
      parseSearchQuery (trim input) \<noteq> [])"
  by (auto simp: highlightTextInModal_def performSearch_def Let_def split: if_splits)

text \<open>A search that renders a card, and the modal highlight of a text with no terms.\<close>

theorem modal_highlight_empty_terms_unmodified_witness:
  "highlightTextInModal (Some ''I need help'') (Some []) False = Inr (Some ''I need help'') \<and>
   performSearch [call_one, call_two] ''help'' ''customer'' True =
     Some (Inr (SearchDone
       [\<lparr>result_transcript = call_one,
         matchingUtterances = [utterance.extend customer_help \<lparr>index = 1, matchCount = 1\<rparr>],
         totalMatches = 1\<rparr>]
       1 1
       (Cards [TranscriptCard ''call-1'' ''call-1'' 1
          [UtteranceBlock ''customer'' ''Customer'' ''0:03'' ''0:05''
             (''I need '' @ highlight_mark ''help'')]]))) \<and>
   parseSearchQuery (trim ''help'') \<noteq> []"
proof -
  have e: "performSearch [call_one, call_two] ''help'' ''customer'' True =
     Some (Inr (SearchDone
       [\<lparr>result_transcript = call_one,
         matchingUtterances = [utterance.extend customer_help \<lparr>index = 1, matchCount = 1\<rparr>],
         totalMatches = 1\<rparr>]
       1 1
       (Cards [TranscriptCard ''call-1'' ''call-1'' 1
          [UtteranceBlock ''customer'' ''Customer'' ''0:03'' ''0:05''
             (''I need '' @ highlight_mark ''help'')]])))"
    by code_simp
  from modal_highlight_empty_terms_unmodified
         [of "Some ''I need help''" False "[call_one, call_two]" "''help''" "''customer''" True] e
  show ?thesis by blast
qed

text \<open>
  Claim C9 as stated fails for the pattern \<open>createHighlightRegex\<close> builds from the empty
  term list: it is an empty group, which matches at every position, so the replacement
  puts an empty marker in front of and behind the one code unit of the text \<open>a\<close>.
\<close>

theorem empty_alternation_marks_every_position:
  "\<not> (replace_highlight (createHighlightRegex [] False) ''a'' = ''a'')"
  by code_simp

section \<open>Parsed terms are never empty\<close>

text \<open>
  Claim C10. For every query, every term the parser produces has a non-empty value, so
  every call of \<open>countMatches\<close> on a present text with the parsed terms returns a count;
  and with a term list that has an empty value the call does not return.
\<close>

theorem parsed_terms_have_nonempty_values:
  "(\<forall>t \<in> set (parseSearchQuery query). term_value t \<noteq> []) \<and>
   (\<exists>n. countMatches (Some tx) (parseSearchQuery query) cs = Some (Inr n)) \<and>
   ((\<exists>t \<in> set terms. term_value t = []) \<longrightarrow> countMatches (Some tx) terms cs = None)"
  using parseSearchQuery_nonempty_values [of query]
    countMatches_nonempty [OF parseSearchQuery_nonempty_values, of tx query cs]
    countMatches_empty_value [of terms tx cs]
  by blast

text \<open>
  A query with a phrase, blank pieces, a keyword and a pair of empty quotes; the blank
  pieces are dropped and the pair of quotes is a keyword of two code units.
\<close>

theorem parsed_terms_have_nonempty_values_witness:
  \<open>parseSearchQuery ''"x y" ; ;z;""'' =
     [\<lparr>term_type = Phrase, term_value = ''x y''\<rparr>,
      \<lparr>term_type = Keyword, term_value = ''z''\<rparr>,
      \<lparr>term_type = Keyword, term_value = ''""''\<rparr>] \<and>
   list_all (\<lambda>t. term_value t \<noteq> []) (parseSearchQuery ''"x y" ; ;z;""'') \<and>
   (\<exists>n. countMatches (Some ''x y z'') (parseSearchQuery ''"x y" ; ;z;""'') False
           = Some (Inr n)) \<and>
   (\<exists>t \<in> set [\<lparr>term_type = Keyword, term_value = ''z''\<rparr>,
               \<lparr>term_type = Keyword, term_value = []\<rparr>]. term_value t = []) \<and>
   countMatches (Some ''x y z'')
     [\<lparr>term_type = Keyword, term_value = ''z''\<rparr>, \<lparr>term_type = Keyword, term_value = []\<rparr>]
     False = None\<close>
proof -
  have p: \<open>parseSearchQuery ''"x y" ; ;z;""'' =
     [\<lparr>term_type = Phrase, term_value = ''x y''\<rparr>,
      \<lparr>term_type = Keyword, term_value = ''z''\<rparr>,
      \<lparr>term_type = Keyword, term_value = ''""''\<rparr>]\<close>
    by code_simp
  have x: "\<exists>t \<in> set [\<lparr>term_type = Keyword, term_value = ''z''\<rparr>,
               \<lparr>term_type = Keyword, term_value = []\<rparr>]. term_value t = []"
    by simp
  note inst = parsed_terms_have_nonempty_values
         [of \<open>''"x y" ; ;z;""''\<close> "''x y z''" False
             "[\<lparr>term_type = Keyword, term_value = ''z''\<rparr>,
               \<lparr>term_type = Keyword, term_value = []\<rparr>]"]
  from inst have a: \<open>\<forall>t \<in> set (parseSearchQuery ''"x y" ; ;z;""''). term_value t \<noteq> []\<close>
    by (rule conjunct1)
  from inst have b: \<open>\<exists>n. countMatches (Some ''x y z'') (parseSearchQuery ''"x y" ; ;z;""'') False
           = Some (Inr n)\<close>
    by (elim conjE)
  from inst x have c: "countMatches (Some ''x y z'')
     [\<lparr>term_type = Keyword, term_value = ''z''\<rparr>, \<lparr>term_type = Keyword, term_value = []\<rparr>]
     False = None"
    by (elim conjE impE)
  from a have a': \<open>list_all (\<lambda>t. term_value t \<noteq> []) (parseSearchQuery ''"x y" ; ;z;""'')\<close>
    by (simp only: list_all_iff)
  from p a' b x c show ?thesis by (intro conjI)
qed

end
